theory Spec2Isabelle
  imports Main "HOL-Library.Word"
begin

section \<open>Binning: \<open>bin_data\<close> and its kernel\<close>

text \<open>
  \<open>src/span/utils/bin_data.pyx\<close>, first half. The samples are a dense row-major
  array of \<open>uint8\<close>, the result a dense row-major array of C \<open>long\<close> (64 bits on the
  platform the spec describes; \<open>+=\<close> on it wraps, which is how \<open>64 word\<close> adds).
  The edges are the values of a one-dimensional \<open>long\<close> array; they are only compared
  and used as loop bounds, so they are kept as the integers they denote.
\<close>

type_synonym uint8 = "8 word"
type_synonym long = "64 word"

datatype error = ValueError

record 'a ndarray =
  shape0 :: nat
  shape1 :: nat
  data :: "'a list"

text \<open>
  The kernel reads \<open>a_data[j * n + k]\<close> through a raw pointer with bounds checking
  switched off. Inside the buffer the read returns the element; outside it returns
  whatever the surrounding memory \<open>mem\<close> holds at that offset. No branch fails.
\<close>

definition a_data_at :: "(int \<Rightarrow> uint8) \<Rightarrow> uint8 list \<Rightarrow> int \<Rightarrow> uint8" where
  "a_data_at mem xs p = (if 0 \<le> p \<and> p < int (length xs) then xs ! nat p else mem p)"

text \<open>\<open>for j in xrange(bin_data[i], bin_data[i + 1]): out_data[i * n + k] += a_data[j * n + k]\<close>\<close>

definition bin_loop_j ::
  "(int \<Rightarrow> uint8) \<Rightarrow> uint8 list \<Rightarrow> int list \<Rightarrow> nat \<Rightarrow> nat \<Rightarrow> nat \<Rightarrow> long list \<Rightarrow> long list" where
  "bin_loop_j mem xs bins n k i out_data =
     fold (\<lambda>j out. out[i * n + k := out ! (i * n + k) + ucast (a_data_at mem xs (j * int n + int k))])
          [bins ! i .. bins ! (i + 1) - 1] out_data"

text \<open>\<open>for i in xrange(nbins - 1)\<close>, with \<open>nbins = bins.shape[0]\<close>\<close>

definition bin_loop_i ::
  "(int \<Rightarrow> uint8) \<Rightarrow> uint8 list \<Rightarrow> int list \<Rightarrow> nat \<Rightarrow> nat \<Rightarrow> long list \<Rightarrow> long list" where
  "bin_loop_i mem xs bins n k out_data =
     fold (bin_loop_j mem xs bins n k) [0 ..< length bins - 1] out_data"

text \<open>\<open>_bin_data\<close>: \<open>for k in xrange(n)\<close>, with \<open>n = out.shape[1]\<close>; \<open>out\<close> is updated in place.\<close>

definition cdef_bin_data ::
  "(int \<Rightarrow> uint8) \<Rightarrow> uint8 ndarray \<Rightarrow> int list \<Rightarrow> long ndarray \<Rightarrow> long ndarray" where
  "cdef_bin_data mem a bins out =
     (let n = shape1 out
      in out\<lparr>data := fold (bin_loop_i mem (data a) bins n) [0 ..< n] (data out)\<rparr>)"

text \<open>
  \<open>bin_data\<close>: \<open>out = np.zeros((bins.shape[0] - 1, a.shape[1]))\<close>, then the kernel.
  \<open>np.zeros\<close> raises \<open>ValueError\<close> for a negative dimension, which is the case of an
  empty \<open>bins\<close>; nothing else is checked.
\<close>

definition bin_data :: "(int \<Rightarrow> uint8) \<Rightarrow> uint8 ndarray \<Rightarrow> int list \<Rightarrow> error + long ndarray" where
  "bin_data mem a bins =
     (if length bins = 0 then Inl ValueError
      else Inr (cdef_bin_data mem a bins
                  \<lparr>shape0 = length bins - 1, shape1 = shape1 a,
                   data = replicate ((length bins - 1) * shape1 a) 0\<rparr>))"

text \<open>The per-cell sum the kernel accumulates, as a \<open>long\<close>.\<close>

definition bin_sum :: "(int \<Rightarrow> uint8) \<Rightarrow> uint8 list \<Rightarrow> int list \<Rightarrow> nat \<Rightarrow> nat \<Rightarrow> nat \<Rightarrow> long" where
  "bin_sum mem xs bins n k i =
     sum_list (map (\<lambda>j. ucast (a_data_at mem xs (j * int n + int k))) [bins ! i .. bins ! (i + 1) - 1])"

text \<open>
  A samples array of shape \<open>(T, N)\<close>: its buffer holds \<open>T * N\<close> elements, and \<open>T\<close>, like
  every \<open>numpy\<close> dimension, is an \<open>npy_intp\<close> and so below \<open>2 ^ 63\<close>.
\<close>

definition wf_samples :: "uint8 ndarray \<Rightarrow> bool" where
  "wf_samples a \<longleftrightarrow> length (data a) = shape0 a * shape1 a \<and> shape0 a < 2 ^ 63"

text \<open>
  \<open>a + b\<close> on two \<open>numpy\<close> arrays of one shape and one element type: element by element,
  in the arithmetic of the element type (it wraps at 256 for \<open>uint8\<close>).
\<close>

definition ndarray_add :: "'a::plus ndarray \<Rightarrow> 'a ndarray \<Rightarrow> 'a ndarray" where
  "ndarray_add a b = \<lparr>shape0 = shape0 a, shape1 = shape1 a, data = map2 (+) (data a) (data b)\<rparr>"

section \<open>Block cross-correlation: \<open>mult_mat_xcorr\<close> and its kernel\<close>

text \<open>
  \<open>src/span/utils/bin_data.pyx\<close>, second half. The three arguments \<open>X\<close>, \<open>Xc\<close>, \<open>c\<close> are
  typed memoryviews: windows onto buffers the caller owns, which the kernel reads and writes
  in place with bounds checking switched off. Nothing stops a caller from passing windows that
  overlap, so memory is one store (an element per address) and a memoryview is the window's
  base address and shape. The arrays are dense and row-major, as the data model of the spec
  has them. The element type is any of the four of \<open>cflt\<close>; the kernel only multiplies, so
  it is any type with a product here.
\<close>

type_synonym 'a store = "nat \<Rightarrow> 'a"

record memview =
  base :: nat
  nrows :: nat
  ncols :: nat

text \<open>The address of \<open>v[i, k]\<close>; no bound is checked.\<close>

definition addr :: "memview \<Rightarrow> nat \<Rightarrow> nat \<Rightarrow> nat" where
  "addr v i k = base v + i * ncols v + k"

definition rd :: "'a store \<Rightarrow> memview \<Rightarrow> nat \<Rightarrow> nat \<Rightarrow> 'a" where
  "rd s v i k = s (addr v i k)"

text \<open>\<open>for k in xrange(nx): c[j, k] = X[i, k] * Xc[r, k]\<close>\<close>

definition xcorr_loop_k ::
  "memview \<Rightarrow> memview \<Rightarrow> memview \<Rightarrow> nat \<Rightarrow> nat \<Rightarrow> nat \<Rightarrow> nat \<Rightarrow> 'a::times store \<Rightarrow> 'a store" where
  "xcorr_loop_k X Xc c nx i r j s =
     fold (\<lambda>k s. s(addr c j k := rd s X i k * rd s Xc r k)) [0 ..< nx] s"

text \<open>\<open>for r, j in enumerate(xrange(i * n, (i + 1) * n))\<close>: one outer iteration.\<close>

definition xcorr_loop_r ::
  "memview \<Rightarrow> memview \<Rightarrow> memview \<Rightarrow> nat \<Rightarrow> nat \<Rightarrow> nat \<Rightarrow> 'a::times store \<Rightarrow> 'a store" where
  "xcorr_loop_r X Xc c n nx i s =
     fold (\<lambda>(r, j). xcorr_loop_k X Xc c nx i r j) (enumerate 0 [i * n ..< (i + 1) * n]) s"

text \<open>
  The outer iterations listed in \<open>order\<close>, run one after another: what one worker does
  with the iterations it is given. The counts \<open>n\<close> and \<open>nx\<close> are \<open>npy_intp\<close>; a negative
  count runs no iteration, as 0 does.
\<close>

definition xcorr_seq ::
  "memview \<Rightarrow> memview \<Rightarrow> memview \<Rightarrow> nat \<Rightarrow> nat \<Rightarrow> nat list \<Rightarrow> 'a::times store \<Rightarrow> 'a store" where
  "xcorr_seq X Xc c n nx order s = fold (xcorr_loop_r X Xc c n nx) order s"

text \<open>
  \<open>_mult_mat_xcorr\<close> run by a single worker: \<open>for i in prange(n)\<close> is then the ascending
  loop. The run under any schedule of the workers is \<open>xcorr_prange\<close> below.
\<close>

definition cdef_mult_mat_xcorr ::
  "memview \<Rightarrow> memview \<Rightarrow> memview \<Rightarrow> nat \<Rightarrow> nat \<Rightarrow> 'a::times store \<Rightarrow> 'a store" where
  "cdef_mult_mat_xcorr X Xc c n nx s = xcorr_seq X Xc c n nx [0 ..< n] s"

definition mult_mat_xcorr ::
  "memview \<Rightarrow> memview \<Rightarrow> memview \<Rightarrow> nat \<Rightarrow> nat \<Rightarrow> 'a::times store \<Rightarrow> 'a store" where
  "mult_mat_xcorr X Xc c n nx s = cdef_mult_mat_xcorr X Xc c n nx s"

subsection \<open>The parallel loop under a schedule\<close>

text \<open>
  \<open>for i in prange(n, schedule='guided')\<close> hands the outer iterations to the workers. A
  worker runs the statements of an iteration in program order; the statements of different
  iterations run in any order relative to each other. A step \<open>(i, r, k)\<close> is one execution
  of \<open>c[j, k] = X[i, k] * Xc[r, k]\<close> with \<open>j = i * n + r\<close>.
\<close>

type_synonym step = "nat \<times> nat \<times> nat"

definition xcorr_step ::
  "memview \<Rightarrow> memview \<Rightarrow> memview \<Rightarrow> nat \<Rightarrow> step \<Rightarrow> 'a::times store \<Rightarrow> 'a store" where
  "xcorr_step X Xc c n = (\<lambda>(i, r, k) s. s(addr c (i * n + r) k := rd s X i k * rd s Xc r k))"

text \<open>The steps of outer iteration \<open>i\<close>, in program order.\<close>

definition iteration_steps :: "nat \<Rightarrow> nat \<Rightarrow> nat \<Rightarrow> step list" where
  "iteration_steps n nx i = concat (map (\<lambda>r. map (\<lambda>k. (i, r, k)) [0 ..< nx]) [0 ..< n])"

text \<open>
  A schedule of the whole loop: steps of the iterations \<open>0 .. n - 1\<close> only, and those of
  each iteration \<open>i\<close> are exactly its steps, in program order. Every number of workers
  and every assignment of iterations to them gives such a list.
\<close>

definition prange_schedule :: "nat \<Rightarrow> nat \<Rightarrow> step list \<Rightarrow> bool" where
  "prange_schedule n nx sched \<longleftrightarrow>
     list_all (\<lambda>(i, r, k). i < n) sched \<and>
     list_all (\<lambda>i. filter (\<lambda>(i', r, k). i' = i) sched = iteration_steps n nx i) [0 ..< n]"

text \<open>\<open>_mult_mat_xcorr\<close> run under a schedule.\<close>

definition xcorr_prange ::
  "memview \<Rightarrow> memview \<Rightarrow> memview \<Rightarrow> nat \<Rightarrow> step list \<Rightarrow> 'a::times store \<Rightarrow> 'a store" where
  "xcorr_prange X Xc c n sched s = fold (xcorr_step X Xc c n) sched s"

subsection \<open>Vocabulary of the claims\<close>

text \<open>
  The addresses of an array, of its first \<open>m\<close> rows, and of the rows
  \<open>[i * n, (i + 1) * n)\<close> of \<open>c\<close>.
\<close>

definition footprint :: "memview \<Rightarrow> nat set" where
  "footprint v = {base v ..< base v + nrows v * ncols v}"

definition first_rows :: "memview \<Rightarrow> nat \<Rightarrow> nat set" where
  "first_rows v m = {base v ..< base v + m * ncols v}"

definition row_block :: "memview \<Rightarrow> nat \<Rightarrow> nat \<Rightarrow> nat set" where
  "row_block c n i = {base c + i * n * ncols c ..< base c + (i + 1) * n * ncols c}"

text \<open>The shapes the spec asks for: \<open>X\<close> is \<open>(n, nx)\<close>, \<open>Xc\<close> and \<open>c\<close> are \<open>(n * n, nx)\<close>.\<close>

definition xcorr_shapes :: "memview \<Rightarrow> memview \<Rightarrow> memview \<Rightarrow> nat \<Rightarrow> nat \<Rightarrow> bool" where
  "xcorr_shapes X Xc c n nx \<longleftrightarrow>
     nrows X = n \<and> ncols X = nx \<and> nrows Xc = n * n \<and> ncols Xc = nx \<and> nrows c = n * n \<and> ncols c = nx"

text \<open>The output shares no element with what the kernel reads: \<open>X\<close> and the first \<open>n\<close> rows of \<open>Xc\<close>.\<close>

definition xcorr_separate :: "memview \<Rightarrow> memview \<Rightarrow> memview \<Rightarrow> nat \<Rightarrow> bool" where
  "xcorr_separate X Xc c n \<longleftrightarrow>
     footprint c \<inter> footprint X = {} \<and> footprint c \<inter> first_rows Xc n = {}"

text \<open>The content of an array, row by row.\<close>

definition view_rows :: "'a store \<Rightarrow> memview \<Rightarrow> 'a list list" where
  "view_rows s v = map (\<lambda>i. map (\<lambda>k. rd s v i k) [0 ..< ncols v]) [0 ..< nrows v]"

subsection \<open>The kernel as a sequence of writes\<close>

text \<open>
  Every step of the kernel is one write \<open>s(d := s x * s y)\<close>. The list of the triples
  \<open>(d, x, y)\<close> in execution order is what the proofs reason about; that the loops run
  exactly this list is proved below.
\<close>

type_synonym wop = "nat \<times> nat \<times> nat"

definition exec_op :: "wop \<Rightarrow> 'a::times store \<Rightarrow> 'a store" where
  "exec_op = (\<lambda>(d, x, y) s. s(d := s x * s y))"

definition xcorr_ops_i :: "memview \<Rightarrow> memview \<Rightarrow> memview \<Rightarrow> nat \<Rightarrow> nat \<Rightarrow> nat \<Rightarrow> wop list" where
  "xcorr_ops_i X Xc c n nx i =
     concat (map (\<lambda>r. map (\<lambda>k. (addr c (i * n + r) k, addr X i k, addr Xc r k)) [0 ..< nx]) [0 ..< n])"

definition xcorr_ops :: "memview \<Rightarrow> memview \<Rightarrow> memview \<Rightarrow> nat \<Rightarrow> nat \<Rightarrow> nat list \<Rightarrow> wop list" where
  "xcorr_ops X Xc c n nx order = concat (map (xcorr_ops_i X Xc c n nx) order)"

text \<open>The write a step makes.\<close>

definition step_op :: "memview \<Rightarrow> memview \<Rightarrow> memview \<Rightarrow> nat \<Rightarrow> step \<Rightarrow> wop" where
  "step_op X Xc c n = (\<lambda>(i, r, k). (addr c (i * n + r) k, addr X i k, addr Xc r k))"

subsection \<open>Concrete inputs\<close>

text \<open>
  The example of the spec: \<open>n = 2\<close>, \<open>nx = 1\<close>, \<open>X = [[2], [3]]\<close> at addresses 0 and 1,
  \<open>Xc = [[1], [2], [3], [4]]\<close> at 2 to 5, and \<open>c\<close> at 6 to 9. \<open>other_store\<close> has the
  same \<open>X\<close> and the same first two rows of \<open>Xc\<close>, and differs everywhere else.
\<close>

definition store_of :: "'a::zero list \<Rightarrow> 'a store" where
  "store_of xs = (\<lambda>a. if a < length xs then xs ! a else 0)"

definition spec_X :: memview where "spec_X = \<lparr>base = 0, nrows = 2, ncols = 1\<rparr>"

definition spec_Xc :: memview where "spec_Xc = \<lparr>base = 2, nrows = 4, ncols = 1\<rparr>"

definition spec_c :: memview where "spec_c = \<lparr>base = 6, nrows = 4, ncols = 1\<rparr>"

definition spec_store :: "int store" where "spec_store = store_of [2, 3, 1, 2, 3, 4, 0, 0, 0, 0]"

definition other_store :: "int store" where "other_store = store_of [2, 3, 1, 2, 9, 9, 5, 5, 5, 5]"

definition one_cell :: memview where "one_cell = \<lparr>base = 0, nrows = 1, ncols = 1\<rparr>"

text \<open>
  Three schedules for \<open>n = 2\<close>, \<open>nx = 1\<close>: iteration 0 then 1, iteration 1 then 0, and one
  in which iteration 1 starts, iteration 0 runs, and iteration 1 finishes.
\<close>

definition ascending_sched :: "step list" where
  "ascending_sched = [(0, 0, 0), (0, 1, 0), (1, 0, 0), (1, 1, 0)]"

definition descending_sched :: "step list" where
  "descending_sched = [(1, 0, 0), (1, 1, 0), (0, 0, 0), (0, 1, 0)]"

definition interleaved_sched :: "step list" where
  "interleaved_sched = [(1, 0, 0), (0, 0, 0), (0, 1, 0), (1, 1, 0)]"

section \<open>Binning: proofs\<close>

subsection \<open>The loops, cell by cell\<close>

lemma bin_loop_j_eq:
  "bin_loop_j mem xs bins n k i out = out[i * n + k := out ! (i * n + k) + bin_sum mem xs bins n k i]"
proof -
  have "fold (\<lambda>j out. out[p := out ! p + f j]) js out = out[p := out ! p + sum_list (map f js)]"
    for p :: nat and f :: "int \<Rightarrow> long" and js out
  proof (induction js arbitrary: out)
    case Nil
    show ?case by simp
  next
    case (Cons j js)
    show ?case
    proof (cases "p < length out")
      case True
      then show ?thesis by (simp add: Cons.IH add.assoc)
    next
      case False
      then have "out[p := v] = out" for v by (simp add: list_update_beyond)
      then show ?thesis by (simp add: Cons.IH)
    qed
  qed
  then show ?thesis by (simp add: bin_loop_j_def bin_sum_def)
qed

lemma length_bin_loop_j [simp]: "length (bin_loop_j mem xs bins n k i out) = length out"
  by (simp add: bin_loop_j_eq)

lemma length_bin_loop_i [simp]: "length (bin_loop_i mem xs bins n k out) = length out"
proof -
  have "length (fold (bin_loop_j mem xs bins n k) is out) = length out" for "is"
    by (induction "is" arbitrary: out) simp_all
  then show ?thesis by (simp add: bin_loop_i_def)
qed

lemma length_fold_bin_loop_i [simp]:
  "length (fold (bin_loop_i mem xs bins n) ks out) = length out"
  by (induction ks arbitrary: out) simp_all

text \<open>Row-major cells: a cell index determines its row and its column.\<close>

lemma cell_inj:
  fixes i i' k k' n :: nat
  assumes "k < n" "k' < n" "i * n + k = i' * n + k'"
  shows "i = i' \<and> k = k'"
proof -
  have "(i * n + k) div n = i" "(i' * n + k') div n = i'" using assms(1,2) by simp_all
  moreover have "(i * n + k) mod n = k" "(i' * n + k') mod n = k'" using assms(1,2) by simp_all
  ultimately show ?thesis using assms(3) by metis
qed

lemma fold_bin_loop_j_other:
  "(\<forall>i\<in>set is. p \<noteq> i * n + k) \<Longrightarrow> fold (bin_loop_j mem xs bins n k) is out ! p = out ! p"
  by (induction "is" arbitrary: out) (simp_all add: bin_loop_j_eq)

lemma fold_bin_loop_j_cell:
  assumes "k < n" "distinct is" "i \<in> set is" "i * n + k < length out"
  shows "fold (bin_loop_j mem xs bins n k) is out ! (i * n + k) = out ! (i * n + k) + bin_sum mem xs bins n k i"
  using assms(2-)
proof (induction "is" arbitrary: out)
  case Nil
  then show ?case by simp
next
  case (Cons a "is")
  show ?case
  proof (cases "i = a")
    case True
    with Cons.prems have "\<forall>i'\<in>set is. i * n + k \<noteq> i' * n + k"
      using assms(1) by auto
    then have "fold (bin_loop_j mem xs bins n k) is (bin_loop_j mem xs bins n k a out) ! (i * n + k)
               = bin_loop_j mem xs bins n k a out ! (i * n + k)"
      by (rule fold_bin_loop_j_other)
    moreover have "bin_loop_j mem xs bins n k a out ! (a * n + k) = out ! (a * n + k) + bin_sum mem xs bins n k a"
      using True Cons.prems by (simp add: bin_loop_j_eq)
    ultimately show ?thesis using True by simp
  next
    case False
    with Cons.prems have "i \<in> set is" "distinct is" by auto
    moreover have "i * n + k \<noteq> a * n + k" using False assms(1) by auto
    moreover have "bin_loop_j mem xs bins n k a out ! (i * n + k) = out ! (i * n + k)"
      using \<open>i * n + k \<noteq> a * n + k\<close> by (simp add: bin_loop_j_eq)
    ultimately show ?thesis using Cons.prems Cons.IH[of "bin_loop_j mem xs bins n k a out"]
      by simp
  qed
qed

lemma bin_loop_i_other:
  "(\<forall>i < length bins - 1. p \<noteq> i * n + k) \<Longrightarrow> bin_loop_i mem xs bins n k out ! p = out ! p"
  by (simp add: bin_loop_i_def fold_bin_loop_j_other)

lemma bin_loop_i_cell:
  "k < n \<Longrightarrow> i < length bins - 1 \<Longrightarrow> i * n + k < length out \<Longrightarrow>
   bin_loop_i mem xs bins n k out ! (i * n + k) = out ! (i * n + k) + bin_sum mem xs bins n k i"
  by (simp add: bin_loop_i_def fold_bin_loop_j_cell)

lemma fold_bin_loop_i_other:
  "(\<forall>k\<in>set ks. \<forall>i < length bins - 1. p \<noteq> i * n + k) \<Longrightarrow>
   fold (bin_loop_i mem xs bins n) ks out ! p = out ! p"
  by (induction ks arbitrary: out) (simp_all add: bin_loop_i_other)

lemma fold_bin_loop_i_cell:
  assumes "\<forall>k\<in>set ks. k < n" "distinct ks" "k \<in> set ks" "i < length bins - 1" "i * n + k < length out"
  shows "fold (bin_loop_i mem xs bins n) ks out ! (i * n + k) = out ! (i * n + k) + bin_sum mem xs bins n k i"
  using assms
proof (induction ks arbitrary: out)
  case Nil
  then show ?case by simp
next
  case (Cons a ks)
  show ?case
  proof (cases "k = a")
    case True
    have "\<forall>k'\<in>set ks. \<forall>i' < length bins - 1. i * n + k \<noteq> i' * n + k'"
      using Cons.prems True cell_inj[of k n _ i] by (metis distinct.simps(2) list.set_intros(1,2))
    then have "fold (bin_loop_i mem xs bins n) ks (bin_loop_i mem xs bins n a out) ! (i * n + k)
               = bin_loop_i mem xs bins n a out ! (i * n + k)"
      by (rule fold_bin_loop_i_other)
    then show ?thesis using True Cons.prems
      by (simp add: bin_loop_i_cell)
  next
    case False
    have "\<forall>i' < length bins - 1. i * n + k \<noteq> i' * n + a"
      using Cons.prems False cell_inj[of k n a i] by (metis list.set_intros(1))
    then have "bin_loop_i mem xs bins n a out ! (i * n + k) = out ! (i * n + k)"
      by (rule bin_loop_i_other)
    then show ?thesis using False Cons.prems Cons.IH[of "bin_loop_i mem xs bins n a out"]
      by simp
  qed
qed

lemma cell_in_range:
  fixes i k :: nat
  assumes "i < b" "k < n"
  shows "i * n + k < b * n"
proof -
  have "i * n + k < Suc i * n" using assms(2) by simp
  also have "\<dots> \<le> b * n" using assms(1) by (intro mult_le_mono1) simp
  finally show ?thesis .
qed

subsection \<open>What \<open>bin_data\<close> returns\<close>

lemma bin_data_nonempty:
  "bins \<noteq> [] \<Longrightarrow>
   bin_data mem a bins =
     Inr \<lparr>shape0 = length bins - 1, shape1 = shape1 a,
          data = fold (bin_loop_i mem (data a) bins (shape1 a)) [0 ..< shape1 a]
                   (replicate ((length bins - 1) * shape1 a) 0)\<rparr>"
  by (simp add: bin_data_def cdef_bin_data_def Let_def)

lemma bin_data_empty: "bin_data mem a [] = Inl ValueError"
  by (simp add: bin_data_def)

lemma bin_data_cell:
  assumes "bin_data mem a bins = Inr out" "i < length bins - 1" "k < shape1 a"
  shows "data out ! (i * shape1 a + k) = bin_sum mem (data a) bins (shape1 a) k i"
proof -
  let ?n = "shape1 a" and ?b = "length bins - 1"
  have ne: "bins \<noteq> []" using assms(2) by auto
  have out: "data out = fold (bin_loop_i mem (data a) bins ?n) [0 ..< ?n] (replicate (?b * ?n) 0)"
    using assms(1) bin_data_nonempty[OF ne, of mem a] by auto
  have rng: "i * ?n + k < ?b * ?n" using assms(2,3) by (rule cell_in_range)
  have "fold (bin_loop_i mem (data a) bins ?n) [0 ..< ?n] (replicate (?b * ?n) 0) ! (i * ?n + k)
        = replicate (?b * ?n) 0 ! (i * ?n + k) + bin_sum mem (data a) bins ?n k i"
    using assms(2,3) rng by (intro fold_bin_loop_i_cell) simp_all
  then show ?thesis using rng by (simp add: out)
qed

lemma bin_sum_empty: "bins ! (i + 1) \<le> bins ! i \<Longrightarrow> bin_sum mem xs bins n k i = 0"
  by (simp add: bin_sum_def)

lemma sample_index_in_range:
  fixes j :: int and k n T :: nat
  assumes "0 \<le> j" "j < int T" "k < n"
  shows "0 \<le> j * int n + int k" "j * int n + int k < int (T * n)"
proof -
  show "0 \<le> j * int n + int k" using assms(1) by simp
  have "j * int n + int k < (j + 1) * int n" using assms(3) by (simp add: algebra_simps)
  also have "\<dots> \<le> int T * int n" using assms(2) by (intro mult_right_mono) simp_all
  finally show "j * int n + int k < int (T * n)" by simp
qed

lemma ucast_sum_list:
  "sum_list (map (\<lambda>j. (ucast (f j :: uint8) :: long)) js) = of_int (sum_list (map (\<lambda>j. uint (f j)) js))"
proof (induction js)
  case Nil
  show ?case by simp
next
  case (Cons j js)
  have "(ucast (f j) :: long) = of_int (uint (f j))" by (rule ucast_eq)
  then show ?case by (simp only: list.map sum_list.Cons Cons.IH of_int_add)
qed

lemma bin_sum_in_range:
  assumes "length xs = T * n" "0 \<le> bins ! i" "bins ! (i + 1) \<le> int T" "k < n"
  shows "bin_sum mem xs bins n k i
         = of_int (\<Sum>j = bins ! i ..< bins ! (i + 1). uint (xs ! nat (j * int n + int k)))"
proof -
  let ?js = "[bins ! i .. bins ! (i + 1) - 1]"
  have rd: "a_data_at mem xs (j * int n + int k) = xs ! nat (j * int n + int k)" if "j \<in> set ?js" for j
  proof -
    from that assms(2,3) have "0 \<le> j" "j < int T" by auto
    from sample_index_in_range[OF this assms(4)] show ?thesis
      by (simp add: a_data_at_def assms(1))
  qed
  have "map (\<lambda>j. (ucast (a_data_at mem xs (j * int n + int k)) :: long)) ?js
        = map (\<lambda>j. ucast (xs ! nat (j * int n + int k))) ?js"
    by (rule map_cong [OF refl]) (simp only: rd)
  then have "bin_sum mem xs bins n k i
        = of_int (sum_list (map (\<lambda>j. uint (xs ! nat (j * int n + int k))) ?js))"
    unfolding bin_sum_def by (simp only: ucast_sum_list)
  also have "sum_list (map (\<lambda>j. uint (xs ! nat (j * int n + int k))) ?js)
             = (\<Sum>j \<in> set ?js. uint (xs ! nat (j * int n + int k)))"
    by (rule interv_sum_list_conv_sum_set_int)
  also have "set ?js = {bins ! i ..< bins ! (i + 1)}"
    by auto
  finally show ?thesis .
qed

lemma bin_data_row_zero:
  assumes "Suc i < length bins" "bins ! (i + 1) \<le> bins ! i"
  shows "\<exists>out. bin_data mem a bins = Inr out \<and> (\<forall>k < shape1 a. data out ! (i * shape1 a + k) = 0)"
proof -
  from assms(1) have ne: "bins \<noteq> []" and i: "i < length bins - 1" by auto
  from bin_data_nonempty[OF ne] obtain out where out: "bin_data mem a bins = Inr out" by blast
  have "data out ! (i * shape1 a + k) = 0" if "k < shape1 a" for k
    using bin_data_cell[OF out i that] bin_sum_empty[OF assms(2)] by simp
  with out show ?thesis by blast
qed

lemma sint_long_of_int: "0 \<le> x \<Longrightarrow> x < 2 ^ 63 \<Longrightarrow> sint (word_of_int x :: long) = x"
  by (simp add: sint_sbintrunc' signed_take_bit_int_eq_self)

lemma sum_bits_le:
  fixes f :: "int \<Rightarrow> int"
  assumes "\<forall>j\<in>{l..<u}. 0 \<le> f j \<and> f j \<le> 1" "0 \<le> l" "u \<le> int T"
  shows "0 \<le> sum f {l..<u}" "sum f {l..<u} \<le> int T"
proof -
  show "0 \<le> sum f {l..<u}" using assms(1) by (intro sum_nonneg) simp
  have "sum f {l..<u} \<le> (\<Sum>j\<in>{l..<u}. 1)" using assms(1) by (intro sum_mono) simp
  also have "\<dots> \<le> int T" using assms(2,3) by simp
  finally show "sum f {l..<u} \<le> int T" .
qed

lemma bin_sum_add:
  assumes la: "length xs = T * n" and lb: "length ys = T * n"
      and nowrap: "\<forall>p < T * n. unat (xs ! p) + unat (ys ! p) < 256"
      and lo: "0 \<le> bins ! i" and hi: "bins ! (i + 1) \<le> int T" and k: "k < n"
  shows "bin_sum mem (map2 (+) xs ys) bins n k i = bin_sum mem xs bins n k i + bin_sum mem ys bins n k i"
proof -
  let ?I = "{bins ! i ..< bins ! (i + 1)}"
  let ?p = "\<lambda>j. nat (j * int n + int k)"
  have lz: "length (map2 (+) xs ys) = T * n" using la lb by simp
  have pt: "uint (map2 (+) xs ys ! ?p j) = uint (xs ! ?p j) + uint (ys ! ?p j)" if "j \<in> ?I" for j
  proof -
    from that lo hi have "0 \<le> j" "j < int T" by auto
    from sample_index_in_range[OF this k] have p: "?p j < T * n" by (simp add: nat_less_iff)
    with nowrap have "unat (xs ! ?p j) + unat (ys ! ?p j) < 256" by blast
    then have "int (unat (xs ! ?p j)) + int (unat (ys ! ?p j)) < 256" by linarith
    then have "uint (xs ! ?p j) + uint (ys ! ?p j) < 2 ^ LENGTH(8)"
      by (simp only: uint_nat) simp
    then have "uint (xs ! ?p j + ys ! ?p j) = uint (xs ! ?p j) + uint (ys ! ?p j)"
      by (rule uint_add_lem [THEN iffD1])
    moreover have "map2 (+) xs ys ! ?p j = xs ! ?p j + ys ! ?p j"
      using p la lb by simp
    ultimately show ?thesis by (simp only:)
  qed
  have "(\<Sum>j\<in>?I. uint (map2 (+) xs ys ! ?p j))
        = (\<Sum>j\<in>?I. uint (xs ! ?p j) + uint (ys ! ?p j))"
    by (rule sum.cong [OF refl]) (rule pt)
  also have "\<dots> = (\<Sum>j\<in>?I. uint (xs ! ?p j)) + (\<Sum>j\<in>?I. uint (ys ! ?p j))"
    by (rule sum.distrib)
  finally show ?thesis
    by (simp only: bin_sum_in_range[OF lz lo hi k] bin_sum_in_range[OF la lo hi k]
                   bin_sum_in_range[OF lb lo hi k] of_int_add)
qed

section \<open>Binning: claims\<close>

text \<open>
  C6. The result of \<open>bin_data\<close> has shape \<open>(len(bins) - 1, N)\<close>, with \<open>N\<close> the number of
  columns of the samples, and its buffer has that many cells. A \<open>bins\<close> of length 1
  gives zero rows for any \<open>N\<close>, and samples without columns give a \<open>(B, 0)\<close> array; both
  are evaluated after the theorem. The edges array has \<open>B + 1 \<ge> 1\<close> entries; with no entry
  at all \<open>np.zeros\<close> is asked for \<open>-1\<close> rows and raises, so there is no output.
\<close>

theorem bin_data_shape:
  "bins \<noteq> [] \<Longrightarrow>
   \<exists>out. bin_data mem a bins = Inr out \<and> shape0 out = length bins - 1 \<and> shape1 out = shape1 a
        \<and> length (data out) = (length bins - 1) * shape1 a"
  by (simp add: bin_data_nonempty)

theorem bin_data_shape_witness:
  "(\<exists>out. bin_data (\<lambda>_. 0) \<lparr>shape0 = 4, shape1 = 3, data = replicate 12 1\<rparr> [2] = Inr out
      \<and> shape0 out = 0 \<and> shape1 out = 3 \<and> length (data out) = 0)
   \<and> (\<exists>out. bin_data (\<lambda>_. 0) \<lparr>shape0 = 4, shape1 = 0, data = []\<rparr> [0, 2, 4] = Inr out
      \<and> shape0 out = 2 \<and> shape1 out = 0 \<and> length (data out) = 0)"
  using bin_data_shape [of "[2]" "\<lambda>_. 0" "\<lparr>shape0 = 4, shape1 = 3, data = replicate 12 1\<rparr>"]
        bin_data_shape [of "[0, 2, 4]" "\<lambda>_. 0" "\<lparr>shape0 = 4, shape1 = 0, data = []\<rparr>"]
  by (simp add: numeral_2_eq_2)

text \<open>
  C2. For samples of shape \<open>(T, N)\<close> with every value 0 or 1 and \<open>B + 1\<close> edges that all lie
  in \<open>[0, T]\<close>, \<open>bin_data\<close> returns an array of shape \<open>(B, N)\<close> (allocated by the call and
  all zero before the kernel runs) whose cell \<open>(i, k)\<close>, read as a signed \<open>long\<close>, is the sum
  of \<open>samples[j][k]\<close> over \<open>bins[i] \<le> j < bins[i + 1]\<close>. That the edges ascend is not
  needed. The instance after the theorem is the example of the spec: edges \<open>[0, 2, 4]\<close> on
  the \<open>4 x 1\<close> input \<open>[[1], [0], [1], [1]]\<close> give \<open>[[1], [2]]\<close>.
\<close>

theorem bin_data_sums:
  assumes wf: "wf_samples a"
      and bits: "\<forall>x\<in>set (data a). x = 0 \<or> x = 1"
      and ne: "bins \<noteq> []"
      and edges: "\<forall>e\<in>set bins. 0 \<le> e \<and> e \<le> int (shape0 a)"
  shows "\<exists>out. bin_data mem a bins = Inr out
           \<and> shape0 out = length bins - 1 \<and> shape1 out = shape1 a
           \<and> length (data out) = (length bins - 1) * shape1 a
           \<and> (\<forall>i < length bins - 1. \<forall>k < shape1 a.
                 sint (data out ! (i * shape1 a + k))
                 = (\<Sum>j = bins ! i ..< bins ! (i + 1). uint (data a ! nat (j * int (shape1 a) + int k))))"
proof -
  let ?T = "shape0 a" and ?n = "shape1 a"
  from bin_data_nonempty[OF ne] obtain out where out: "bin_data mem a bins = Inr out"
    and sh: "shape0 out = length bins - 1" "shape1 out = ?n"
            "length (data out) = (length bins - 1) * ?n"
    by (metis ndarray.select_convs(1,2,3) length_fold_bin_loop_i length_replicate)
  have "sint (data out ! (i * ?n + k))
        = (\<Sum>j = bins ! i ..< bins ! (i + 1). uint (data a ! nat (j * int ?n + int k)))"
    if i: "i < length bins - 1" and k: "k < ?n" for i k
  proof -
    let ?f = "\<lambda>j. uint (data a ! nat (j * int ?n + int k))"
    from i have "bins ! i \<in> set bins" "bins ! (i + 1) \<in> set bins" by simp_all
    with edges have lo: "0 \<le> bins ! i" and hi: "bins ! (i + 1) \<le> int ?T" by auto
    have len: "length (data a) = ?T * ?n" using wf by (simp add: wf_samples_def)
    have cell: "data out ! (i * ?n + k) = of_int (sum ?f {bins ! i ..< bins ! (i + 1)})"
      using bin_data_cell[OF out i k] bin_sum_in_range[OF len lo hi k] by simp
    have "0 \<le> ?f j \<and> ?f j \<le> 1" if "j \<in> {bins ! i ..< bins ! (i + 1)}" for j
    proof -
      from that lo hi have "0 \<le> j" "j < int ?T" by auto
      from sample_index_in_range[OF this k] have "nat (j * int ?n + int k) < length (data a)"
        by (simp add: len nat_less_iff)
      then have "data a ! nat (j * int ?n + int k) \<in> set (data a)" by simp
      with bits show ?thesis by auto
    qed
    then have "\<forall>j\<in>{bins ! i ..< bins ! (i + 1)}. 0 \<le> ?f j \<and> ?f j \<le> 1" by blast
    from sum_bits_le[OF this lo hi]
    have "0 \<le> sum ?f {bins ! i ..< bins ! (i + 1)}" "sum ?f {bins ! i ..< bins ! (i + 1)} < 2 ^ 63"
      using wf by (simp_all add: wf_samples_def)
    then show ?thesis unfolding cell by (rule sint_long_of_int)
  qed
  with out sh show ?thesis by blast
qed

theorem bin_data_sums_witness:
  "wf_samples \<lparr>shape0 = 4, shape1 = 1, data = [1, 0, 1, 1]\<rparr>
   \<and> set [1, 0, 1, 1 :: uint8] \<subseteq> {0, 1}
   \<and> set [0, 2, 4 :: int] \<subseteq> {0 .. 4}
   \<and> (\<exists>out. bin_data (\<lambda>_. 0) \<lparr>shape0 = 4, shape1 = 1, data = [1, 0, 1, 1]\<rparr> [0, 2, 4] = Inr out
          \<and> shape0 out = 2 \<and> shape1 out = 1
          \<and> sint (data out ! 0) = 1 \<and> sint (data out ! 1) = 2)"
proof -
  let ?a = "\<lparr>shape0 = 4, shape1 = 1, data = [1, 0, 1, 1 :: uint8]\<rparr>"
  let ?bins = "[0, 2, 4 :: int]"
  have wf: "wf_samples ?a" by (simp add: wf_samples_def)
  have bits: "\<forall>x\<in>set (data ?a). x = 0 \<or> x = 1" by simp
  have ne: "?bins \<noteq> []" by simp
  have edges: "\<forall>e\<in>set ?bins. 0 \<le> e \<and> e \<le> int (shape0 ?a)" by simp
  from bin_data_sums [OF wf bits ne edges, of "\<lambda>_. 0"] obtain out where
    out: "bin_data (\<lambda>_. 0) ?a ?bins = Inr out" "shape0 out = length ?bins - 1" "shape1 out = shape1 ?a"
    and cells: "\<And>i k. i < length ?bins - 1 \<Longrightarrow> k < shape1 ?a \<Longrightarrow>
      sint (data out ! (i * shape1 ?a + k))
      = (\<Sum>j = ?bins ! i ..< ?bins ! (i + 1). uint (data ?a ! nat (j * int (shape1 ?a) + int k)))"
    by blast
  have ivl: "{0 ..< 2 :: int} = {0, 1}" "{2 ..< 4 :: int} = {2, 3}" by auto
  have "sint (data out ! 0) = 1" using cells [of 0 0] by (simp add: ivl)
  moreover have "sint (data out ! 1) = 2" using cells [of 1 0] by (simp add: ivl)
  ultimately show ?thesis using out wf edges by simp
qed

text \<open>
  C5. Where two adjacent edges are equal, \<open>bins[i] = bins[i + 1]\<close>, row \<open>i\<close> of the
  result is all zeros, whatever the samples and the other edges are. For the edges
  \<open>[0, 0, 2]\<close> the first bin is zero on any input, which is the lemma that follows.
\<close>

theorem bin_data_zero_width:
  "Suc i < length bins \<Longrightarrow> bins ! i = bins ! (i + 1) \<Longrightarrow>
   \<exists>out. bin_data mem a bins = Inr out \<and> (\<forall>k < shape1 a. data out ! (i * shape1 a + k) = 0)"
  by (rule bin_data_row_zero) simp_all

theorem bin_data_zero_width_witness:
  "Suc 0 < length [0, 0, 2 :: int] \<and> [0, 0, 2 :: int] ! 0 = [0, 0, 2] ! (0 + 1)
   \<and> (\<exists>out. bin_data (\<lambda>_. 0) \<lparr>shape0 = 2, shape1 = 2, data = [1, 0, 1, 1]\<rparr> [0, 0, 2] = Inr out
          \<and> data out ! 0 = 0 \<and> data out ! 1 = 0)"
  using bin_data_zero_width [of 0 "[0, 0, 2]" "\<lambda>_. 0" "\<lparr>shape0 = 2, shape1 = 2, data = [1, 0, 1, 1]\<rparr>"]
  by (auto simp: numeral_2_eq_2)

lemma bin_data_edges_0_0_2:
  "\<exists>out. bin_data mem a [0, 0, 2] = Inr out \<and> (\<forall>k < shape1 a. data out ! k = 0)"
  using bin_data_row_zero [of 0 "[0, 0, 2]" mem a] by simp

text \<open>
  C10. Where two adjacent edges decrease, \<open>bins[i] > bins[i + 1]\<close>, the call still returns a
  result and row \<open>i\<close> of it is all zeros, as for a bin of width zero: \<open>xrange\<close> from the
  larger edge to the smaller one is empty. It holds for any edge values, in particular for
  those within \<open>[0, T]\<close>.
\<close>

theorem bin_data_decreasing_pair:
  "Suc i < length bins \<Longrightarrow> bins ! (i + 1) < bins ! i \<Longrightarrow>
   \<exists>out. bin_data mem a bins = Inr out \<and> (\<forall>k < shape1 a. data out ! (i * shape1 a + k) = 0)"
  by (rule bin_data_row_zero) simp_all

theorem bin_data_decreasing_pair_witness:
  "Suc 0 < length [3, 1, 4 :: int] \<and> [3, 1, 4 :: int] ! (0 + 1) < [3, 1, 4] ! 0
   \<and> (\<exists>out. bin_data (\<lambda>_. 0) \<lparr>shape0 = 4, shape1 = 1, data = [1, 0, 1, 1]\<rparr> [3, 1, 4] = Inr out
          \<and> data out ! 0 = 0)"
  using bin_data_decreasing_pair [of 0 "[3, 1, 4]" "\<lambda>_. 0" "\<lparr>shape0 = 4, shape1 = 1, data = [1, 0, 1, 1]\<rparr>"]
  by simp

text \<open>
  C7. When some edge lies outside \<open>[0, T]\<close> the call raises nothing: it returns a result,
  and each cell is the sum of what the unchecked reads find, inside the samples buffer or
  beyond it. In the instance after the theorem the edges \<open>[0, 5]\<close> on four rows add the
  value 7 that lies behind the buffer to the three ones in it.
\<close>

theorem bin_data_unchecked_edges:
  assumes "\<exists>e\<in>set bins. e < 0 \<or> int (shape0 a) < e"
  shows "\<exists>out. bin_data mem a bins = Inr out
           \<and> (\<forall>i < length bins - 1. \<forall>k < shape1 a.
                 data out ! (i * shape1 a + k)
                 = sum_list (map (\<lambda>j. ucast (a_data_at mem (data a) (j * int (shape1 a) + int k)))
                                 [bins ! i .. bins ! (i + 1) - 1]))"
proof -
  from assms have "bins \<noteq> []" by auto
  from bin_data_nonempty[OF this] obtain out where out: "bin_data mem a bins = Inr out" by blast
  show ?thesis using out bin_data_cell[OF out] by (auto simp: bin_sum_def)
qed

theorem bin_data_unchecked_edges_witness:
  "(\<exists>e\<in>set [0, 5 :: int]. e < 0 \<or> 4 < e)
   \<and> bin_data (\<lambda>_. 7) \<lparr>shape0 = 4, shape1 = 1, data = [1, 0, 1, 1]\<rparr> [0, 5]
       = Inr \<lparr>shape0 = 1, shape1 = 1, data = [10]\<rparr>"
proof -
  let ?a = "\<lparr>shape0 = 4, shape1 = 1, data = [1, 0, 1, 1 :: uint8]\<rparr>"
  have h: "\<exists>e\<in>set [0, 5 :: int]. e < 0 \<or> int (shape0 ?a) < e" by simp
  from bin_data_unchecked_edges [OF h, of "\<lambda>_. 7"] obtain out where
    out: "bin_data (\<lambda>_. 7) ?a [0, 5] = Inr out"
    and cell: "\<And>i k. i < length [0, 5 :: int] - 1 \<Longrightarrow> k < shape1 ?a \<Longrightarrow>
       data out ! (i * shape1 ?a + k)
       = sum_list (map (\<lambda>j. ucast (a_data_at (\<lambda>_. 7) (data ?a) (j * int (shape1 ?a) + int k)))
                       [[0, 5] ! i .. [0, 5] ! (i + 1) - 1])"
    by blast
  have "data out ! 0 = 10" using cell [of 0 0] by (simp add: a_data_at_def upto.simps)
  moreover from out have "shape0 out = 1" "shape1 out = 1" "length (data out) = 1"
    by (auto simp: bin_data_nonempty)
  ultimately have "out = \<lparr>shape0 = 1, shape1 = 1, data = [10]\<rparr>"
    by (cases out) (auto simp: length_Suc_conv)
  with out h show ?thesis by simp
qed

text \<open>
  C4, as amended. For two samples arrays of one shape \<open>(T, N)\<close> in which no element-wise sum
  \<open>a[j][k] + b[j][k]\<close> exceeds 255 (so for samples that are 0 or 1), and edges that all lie
  in \<open>[0, T]\<close>: \<open>bin(a + b, edges) = bin(a, edges) + bin(b, edges)\<close>. Without the bound the
  sum \<open>a + b\<close> of two \<open>uint8\<close> arrays wraps and the equation fails, as the last theorem
  shows for \<open>[[255]] + [[1]]\<close>.
\<close>

theorem bin_data_linear:
  assumes shape: "shape0 b = shape0 a" "shape1 b = shape1 a"
      and la: "length (data a) = shape0 a * shape1 a"
      and lb: "length (data b) = shape0 a * shape1 a"
      and nowrap: "\<forall>p < shape0 a * shape1 a. unat (data a ! p) + unat (data b ! p) < 256"
      and ne: "bins \<noteq> []"
      and edges: "\<forall>e\<in>set bins. 0 \<le> e \<and> e \<le> int (shape0 a)"
  shows "\<exists>ra rb. bin_data mem a bins = Inr ra \<and> bin_data mem b bins = Inr rb
           \<and> bin_data mem (ndarray_add a b) bins = Inr (ndarray_add ra rb)"
proof -
  let ?n = "shape1 a" and ?B = "length bins - 1" and ?ab = "ndarray_add a b"
  from bin_data_nonempty[OF ne] obtain ra rb rab where
    ra: "bin_data mem a bins = Inr ra" and rb: "bin_data mem b bins = Inr rb"
    and rab: "bin_data mem ?ab bins = Inr rab" by blast
  have sha: "shape0 ra = ?B" "shape1 ra = ?n" "length (data ra) = ?B * ?n"
    using ra by (auto simp: bin_data_nonempty[OF ne])
  have shb: "length (data rb) = ?B * ?n"
    using rb shape by (auto simp: bin_data_nonempty[OF ne])
  have shab: "shape0 rab = ?B" "shape1 rab = ?n" "length (data rab) = ?B * ?n"
    using rab by (auto simp: bin_data_nonempty[OF ne] ndarray_add_def)
  have "data rab ! p = data ra ! p + data rb ! p" if p: "p < ?B * ?n" for p
  proof -
    from p have n: "0 < ?n" by (cases "?n = 0") simp_all
    define i k where "i = p div ?n" and "k = p mod ?n"
    have k: "k < ?n" and i: "i < ?B" and pik: "p = i * ?n + k"
      using n p by (simp_all add: i_def k_def less_mult_imp_div_less)
    from i have "bins ! i \<in> set bins" "bins ! (i + 1) \<in> set bins" by simp_all
    with edges have lo: "0 \<le> bins ! i" and hi: "bins ! (i + 1) \<le> int (shape0 a)" by auto
    have "data rab ! p = bin_sum mem (map2 (+) (data a) (data b)) bins ?n k i"
      using bin_data_cell[OF rab i] k by (simp add: pik ndarray_add_def)
    also have "\<dots> = bin_sum mem (data a) bins ?n k i + bin_sum mem (data b) bins ?n k i"
      by (rule bin_sum_add[OF la lb nowrap lo hi k])
    also have "\<dots> = data ra ! p + data rb ! p"
      using bin_data_cell[OF ra i k] bin_data_cell[OF rb i] k shape by (simp add: pik)
    finally show ?thesis .
  qed
  then have "data rab = map2 (+) (data ra) (data rb)"
    using sha shb shab by (intro nth_equalityI) simp_all
  then have "rab = ndarray_add ra rb"
    using sha shab by (simp add: ndarray_add_def)
  with ra rb rab show ?thesis by blast
qed

theorem bin_data_linear_witness:
  "list_all2 (\<lambda>x y. unat x + unat y < 256) [1, 0, 1, 1 :: uint8] [1, 1, 0, 1 :: uint8]
   \<and> set [0, 2, 4 :: int] \<subseteq> {0 .. 4}
   \<and> (\<exists>ra rb. bin_data (\<lambda>_. 0) \<lparr>shape0 = 4, shape1 = 1, data = [1, 0, 1, 1]\<rparr> [0, 2, 4] = Inr ra
        \<and> bin_data (\<lambda>_. 0) \<lparr>shape0 = 4, shape1 = 1, data = [1, 1, 0, 1]\<rparr> [0, 2, 4] = Inr rb
        \<and> bin_data (\<lambda>_. 0) (ndarray_add \<lparr>shape0 = 4, shape1 = 1, data = [1, 0, 1, 1]\<rparr>
                                         \<lparr>shape0 = 4, shape1 = 1, data = [1, 1, 0, 1]\<rparr>) [0, 2, 4]
          = Inr (ndarray_add ra rb))"
proof -
  let ?a = "\<lparr>shape0 = 4, shape1 = 1, data = [1, 0, 1, 1 :: uint8]\<rparr>"
  let ?b = "\<lparr>shape0 = 4, shape1 = 1, data = [1, 1, 0, 1 :: uint8]\<rparr>"
  let ?bins = "[0, 2, 4 :: int]"
  have nowrap: "\<forall>p < shape0 ?a * shape1 ?a. unat (data ?a ! p) + unat (data ?b ! p) < 256"
    by (simp add: All_less_Suc eval_nat_numeral)
  have edges: "\<forall>e\<in>set ?bins. 0 \<le> e \<and> e \<le> int (shape0 ?a)" by simp
  have "\<exists>ra rb. bin_data (\<lambda>_. 0) ?a ?bins = Inr ra \<and> bin_data (\<lambda>_. 0) ?b ?bins = Inr rb
          \<and> bin_data (\<lambda>_. 0) (ndarray_add ?a ?b) ?bins = Inr (ndarray_add ra rb)"
    by (rule bin_data_linear [OF _ _ _ _ nowrap _ edges]) simp_all
  with nowrap edges show ?thesis by simp
qed

theorem bin_data_linear_counterexample:
  "bin_data (\<lambda>_. 0) (ndarray_add \<lparr>shape0 = 1, shape1 = 1, data = [255]\<rparr>
                                  \<lparr>shape0 = 1, shape1 = 1, data = [1]\<rparr>) [0, 1]
     = Inr \<lparr>shape0 = 1, shape1 = 1, data = [0]\<rparr>
   \<and> bin_data (\<lambda>_. 0) \<lparr>shape0 = 1, shape1 = 1, data = [255]\<rparr> [0, 1]
     = Inr \<lparr>shape0 = 1, shape1 = 1, data = [255]\<rparr>
   \<and> bin_data (\<lambda>_. 0) \<lparr>shape0 = 1, shape1 = 1, data = [1]\<rparr> [0, 1]
     = Inr \<lparr>shape0 = 1, shape1 = 1, data = [1]\<rparr>
   \<and> ndarray_add \<lparr>shape0 = 1, shape1 = 1, data = [255 :: long]\<rparr> \<lparr>shape0 = 1, shape1 = 1, data = [1]\<rparr>
     = \<lparr>shape0 = 1, shape1 = 1, data = [256]\<rparr>
   \<and> \<lparr>shape0 = 1, shape1 = 1, data = [0 :: long]\<rparr> \<noteq> \<lparr>shape0 = 1, shape1 = 1, data = [256]\<rparr>"
  by code_simp

section \<open>Block cross-correlation: proofs\<close>

subsection \<open>The loops run the list of writes\<close>

lemma enumerate_block: "enumerate 0 [i * n ..< (i + 1) * n] = map (\<lambda>r. (r, i * n + r)) [0 ..< n]"
  by (rule nth_equalityI) (simp_all add: nth_enumerate_eq)

lemma fold_concat: "fold f (concat xss) = fold (fold f) xss"
  by (induction xss) simp_all

lemma xcorr_loop_k_ops:
  "xcorr_loop_k X Xc c nx i r j
   = fold exec_op (map (\<lambda>k. (addr c j k, addr X i k, addr Xc r k)) [0 ..< nx])"
  by (rule ext) (simp add: xcorr_loop_k_def fold_map comp_def exec_op_def rd_def)

lemma xcorr_loop_r_ops:
  "xcorr_loop_r X Xc c n nx i = fold exec_op (xcorr_ops_i X Xc c n nx i)"
proof
  fix s :: "'a store"
  have "xcorr_loop_r X Xc c n nx i s
        = fold (\<lambda>(r, j). xcorr_loop_k X Xc c nx i r j) (map (\<lambda>r. (r, i * n + r)) [0 ..< n]) s"
    unfolding xcorr_loop_r_def enumerate_block ..
  also have "\<dots> = fold (\<lambda>r. fold exec_op (map (\<lambda>k. (addr c (i * n + r) k, addr X i k, addr Xc r k)) [0 ..< nx]))
                       [0 ..< n] s"
    by (simp add: fold_map comp_def xcorr_loop_k_ops)
  also have "\<dots> = fold exec_op (xcorr_ops_i X Xc c n nx i) s"
    unfolding xcorr_ops_i_def fold_concat by (simp only: fold_map comp_def)
  finally show "xcorr_loop_r X Xc c n nx i s = fold exec_op (xcorr_ops_i X Xc c n nx i) s" .
qed

lemma xcorr_seq_ops:
  "xcorr_seq X Xc c n nx order s = fold exec_op (xcorr_ops X Xc c n nx order) s"
proof -
  have "xcorr_loop_r X Xc c n nx = (\<lambda>i. fold exec_op (xcorr_ops_i X Xc c n nx i))"
    by (rule ext) (rule xcorr_loop_r_ops)
  then have "xcorr_seq X Xc c n nx order s
             = fold (\<lambda>i. fold exec_op (xcorr_ops_i X Xc c n nx i)) order s"
    unfolding xcorr_seq_def by (rule arg_cong [where f = "\<lambda>f. fold f order s"])
  also have "\<dots> = fold exec_op (xcorr_ops X Xc c n nx order) s"
    unfolding xcorr_ops_def fold_concat by (simp only: fold_map comp_def)
  finally show ?thesis .
qed

lemma set_xcorr_ops_i:
  "(d, x, y) \<in> set (xcorr_ops_i X Xc c n nx i) \<longleftrightarrow>
   (\<exists>r<n. \<exists>k<nx. d = addr c (i * n + r) k \<and> x = addr X i k \<and> y = addr Xc r k)"
proof -
  have eq: "set (xcorr_ops_i X Xc c n nx i)
        = (\<Union>r\<in>{0..<n}. (\<lambda>k. (addr c (i * n + r) k, addr X i k, addr Xc r k)) ` {0..<nx})"
    by (simp add: xcorr_ops_i_def)
  show ?thesis
  proof
    assume "(d, x, y) \<in> set (xcorr_ops_i X Xc c n nx i)"
    then obtain r k where "r < n" "k < nx" "d = addr c (i * n + r) k" "x = addr X i k" "y = addr Xc r k"
      unfolding eq by auto
    then show "\<exists>r<n. \<exists>k<nx. d = addr c (i * n + r) k \<and> x = addr X i k \<and> y = addr Xc r k"
      by blast
  next
    assume "\<exists>r<n. \<exists>k<nx. d = addr c (i * n + r) k \<and> x = addr X i k \<and> y = addr Xc r k"
    then obtain r k where "r < n" "k < nx" "d = addr c (i * n + r) k" "x = addr X i k" "y = addr Xc r k"
      by blast
    then show "(d, x, y) \<in> set (xcorr_ops_i X Xc c n nx i)"
      unfolding eq by (intro UN_I [of r] image_eqI [of _ _ k]) simp_all
  qed
qed

lemma set_xcorr_ops:
  "(d, x, y) \<in> set (xcorr_ops X Xc c n nx order) \<longleftrightarrow>
   (\<exists>i\<in>set order. \<exists>r<n. \<exists>k<nx. d = addr c (i * n + r) k \<and> x = addr X i k \<and> y = addr Xc r k)"
  by (simp add: xcorr_ops_def set_xcorr_ops_i)

lemma fold_exec_op_frame:
  "a \<notin> fst ` set ops \<Longrightarrow> fold exec_op ops s a = s a"
  by (induction ops arbitrary: s) (auto simp: exec_op_def)

lemma fold_exec_op_value:
  assumes src: "\<forall>(d, x, y)\<in>set ops. x \<notin> fst ` set ops \<and> y \<notin> fst ` set ops"
      and fn: "\<forall>(d, x, y)\<in>set ops. \<forall>(d', x', y')\<in>set ops. d = d' \<longrightarrow> x = x' \<and> y = y'"
      and mem: "(d, x, y) \<in> set ops"
  shows "fold exec_op ops s d = s x * s y"
  using assms
proof (induction ops arbitrary: s)
  case Nil
  then show ?case by simp
next
  case (Cons p ops)
  obtain d0 x0 y0 where p: "p = (d0, x0, y0)" by (cases p)
  let ?s1 = "exec_op p s"
  have x: "x \<noteq> d0" and y: "y \<noteq> d0"
    using Cons.prems(1,3) by (auto simp: p)
  show ?case
  proof (cases "(d, x, y) \<in> set ops")
    case True
    have "fold exec_op ops ?s1 d = ?s1 x * ?s1 y"
    proof (rule Cons.IH [OF _ _ True])
      show "\<forall>(d, x, y)\<in>set ops. x \<notin> fst ` set ops \<and> y \<notin> fst ` set ops"
        using Cons.prems(1) by auto
      show "\<forall>(d, x, y)\<in>set ops. \<forall>(d', x', y')\<in>set ops. d = d' \<longrightarrow> x = x' \<and> y = y'"
        using Cons.prems(2) by auto
    qed
    then show ?thesis using x y by (simp add: p exec_op_def)
  next
    case False
    with Cons.prems(3) have eq: "d = d0" "x = x0" "y = y0" by (auto simp: p)
    have "d \<notin> fst ` set ops"
    proof
      assume "d \<in> fst ` set ops"
      then obtain x' y' where in': "(d, x', y') \<in> set ops" by force
      with Cons.prems(2,3) have "x = x' \<and> y = y'" by fastforce
      with in' False show False by simp
    qed
    then have "fold exec_op ops ?s1 d = ?s1 d" by (rule fold_exec_op_frame)
    then show ?thesis by (simp add: p eq exec_op_def)
  qed
qed

lemma fold_exec_op_agree:
  assumes "\<forall>a\<in>L. s1 a = s2 a"
      and "\<forall>(d, x, y)\<in>set ops. x \<in> L \<and> y \<in> L"
  shows "\<forall>a\<in>L \<union> fst ` set ops. fold exec_op ops s1 a = fold exec_op ops s2 a"
  using assms
proof (induction ops arbitrary: s1 s2 L)
  case Nil
  then show ?case by simp
next
  case (Cons p ops)
  obtain d0 x0 y0 where p: "p = (d0, x0, y0)" by (cases p)
  have src: "x0 \<in> L" "y0 \<in> L" using Cons.prems(2) by (auto simp: p)
  have "\<forall>a\<in>insert d0 L \<union> fst ` set ops.
          fold exec_op ops (exec_op p s1) a = fold exec_op ops (exec_op p s2) a"
  proof (rule Cons.IH)
    show "\<forall>a\<in>insert d0 L. exec_op p s1 a = exec_op p s2 a"
      using Cons.prems(1) src by (simp add: p exec_op_def)
    show "\<forall>(d, x, y)\<in>set ops. x \<in> insert d0 L \<and> y \<in> insert d0 L"
      using Cons.prems(2) by auto
  qed
  then show ?case by (simp add: p)
qed

lemma addr_in_footprint:
  "i < nrows v \<Longrightarrow> k < ncols v \<Longrightarrow> addr v i k \<in> footprint v"
  using cell_in_range [of i "nrows v" k "ncols v"] by (simp add: addr_def footprint_def)

lemma addr_in_first_rows:
  "i < m \<Longrightarrow> k < ncols v \<Longrightarrow> addr v i k \<in> first_rows v m"
  using cell_in_range [of i m k "ncols v"] by (simp add: addr_def first_rows_def)

lemma addr_inj:
  "k < ncols v \<Longrightarrow> k' < ncols v \<Longrightarrow> addr v j k = addr v j' k' \<Longrightarrow> j = j' \<and> k = k'"
  using cell_inj [of k "ncols v" k' j j'] by (simp add: addr_def)

lemma block_row_less: "i < n \<Longrightarrow> r < n \<Longrightarrow> i * n + r < n * (n::nat)"
  by (rule cell_in_range)

lemma xcorr_ops_places:
  assumes "xcorr_shapes X Xc c n nx" "set order \<subseteq> {0..<n}" "(d, x, y) \<in> set (xcorr_ops X Xc c n nx order)"
  shows "d \<in> footprint c" "x \<in> footprint X" "y \<in> first_rows Xc n"
proof -
  from assms(3) obtain i r k where irk: "i \<in> set order" "r < n" "k < nx"
    and d: "d = addr c (i * n + r) k" and x: "x = addr X i k" and y: "y = addr Xc r k"
    unfolding set_xcorr_ops by blast
  from irk(1) assms(2) have i: "i < n" by auto
  from assms(1) have sh: "nrows X = n" "ncols X = nx" "ncols Xc = nx" "nrows c = n * n" "ncols c = nx"
    by (simp_all add: xcorr_shapes_def)
  show "d \<in> footprint c" unfolding d
    by (rule addr_in_footprint) (simp_all add: sh block_row_less [OF i irk(2)] irk(3))
  show "x \<in> footprint X" unfolding x
    by (rule addr_in_footprint) (simp_all add: sh i irk(3))
  show "y \<in> first_rows Xc n" unfolding y
    by (rule addr_in_first_rows) (simp_all add: sh irk)
qed

lemma xcorr_ops_functional:
  assumes "ncols c = nx"
      and "(d, x, y) \<in> set (xcorr_ops X Xc c n nx order)"
      and "(d, x', y') \<in> set (xcorr_ops X Xc c n nx order)"
  shows "x = x' \<and> y = y'"
proof -
  from assms(2) obtain i r k where irk: "r < n" "k < nx"
    and d: "d = addr c (i * n + r) k" and x: "x = addr X i k" and y: "y = addr Xc r k"
    unfolding set_xcorr_ops by blast
  from assms(3) obtain i' r' k' where irk': "r' < n" "k' < nx"
    and d': "d = addr c (i' * n + r') k'" and x': "x' = addr X i' k'" and y': "y' = addr Xc r' k'"
    unfolding set_xcorr_ops by blast
  from d d' have "addr c (i * n + r) k = addr c (i' * n + r') k'" by simp
  with irk(2) irk'(2) assms(1) have "i * n + r = i' * n + r'" and k: "k = k'"
    using addr_inj [of k c k' "i * n + r" "i' * n + r'"] by simp_all
  with irk(1) irk'(1) have "i = i'" "r = r'"
    using cell_inj [of r n r' i i'] by simp_all
  with k show ?thesis by (simp add: x y x' y')
qed

lemma xcorr_seq_frame:
  assumes "xcorr_shapes X Xc c n nx" "set order \<subseteq> {0..<n}" "a \<notin> footprint c"
  shows "xcorr_seq X Xc c n nx order s a = s a"
proof -
  have "a \<notin> fst ` set (xcorr_ops X Xc c n nx order)"
    using xcorr_ops_places(1) [OF assms(1,2)] assms(3) by force
  then show ?thesis unfolding xcorr_seq_ops by (rule fold_exec_op_frame)
qed

lemma xcorr_ops_value:
  assumes sh: "xcorr_shapes X Xc c n nx" and sep: "xcorr_separate X Xc c n"
      and ord: "set order \<subseteq> {0..<n}" and mem: "(d, x, y) \<in> set (xcorr_ops X Xc c n nx order)"
  shows "fold exec_op (xcorr_ops X Xc c n nx order) s d = s x * s y"
proof (rule fold_exec_op_value [OF _ _ mem])
  let ?ops = "xcorr_ops X Xc c n nx order"
  have dst: "fst ` set ?ops \<subseteq> footprint c"
    using xcorr_ops_places(1) [OF sh ord] by force
  show "\<forall>(d, x, y)\<in>set ?ops. x \<notin> fst ` set ?ops \<and> y \<notin> fst ` set ?ops"
  proof clarify
    fix d x y assume m: "(d, x, y) \<in> set ?ops"
    from xcorr_ops_places(2,3) [OF sh ord m] sep dst
    show "x \<notin> fst ` set ?ops \<and> y \<notin> fst ` set ?ops"
      unfolding xcorr_separate_def by blast
  qed
  from sh have nc: "ncols c = nx" by (simp add: xcorr_shapes_def)
  show "\<forall>(d, x, y)\<in>set ?ops. \<forall>(d', x', y')\<in>set ?ops. d = d' \<longrightarrow> x = x' \<and> y = y'"
    using xcorr_ops_functional [OF nc] by blast
qed

lemma xcorr_seq_cell:
  assumes sh: "xcorr_shapes X Xc c n nx" and sep: "xcorr_separate X Xc c n"
      and ord: "set order \<subseteq> {0..<n}" and i: "i \<in> set order" and r: "r < n" and k: "k < nx"
  shows "rd (xcorr_seq X Xc c n nx order s) c (i * n + r) k = rd s X i k * rd s Xc r k"
proof -
  have "(addr c (i * n + r) k, addr X i k, addr Xc r k) \<in> set (xcorr_ops X Xc c n nx order)"
    unfolding set_xcorr_ops using i r k by blast
  from xcorr_ops_value [OF sh sep ord this] show ?thesis
    by (simp add: rd_def xcorr_seq_ops)
qed

lemma xcorr_seq_order:
  assumes sh: "xcorr_shapes X Xc c n nx" and sep: "xcorr_separate X Xc c n"
      and ord: "set order \<subseteq> {0..<n}" and ord': "set order' = set order"
  shows "xcorr_seq X Xc c n nx order' s = xcorr_seq X Xc c n nx order s"
proof
  fix a
  let ?ops = "xcorr_ops X Xc c n nx order" and ?ops' = "xcorr_ops X Xc c n nx order'"
  have same: "set ?ops' = set ?ops"
    by (auto simp: set_xcorr_ops ord')
  show "xcorr_seq X Xc c n nx order' s a = xcorr_seq X Xc c n nx order s a"
  proof (cases "a \<in> fst ` set ?ops")
    case True
    then obtain x y where m: "(a, x, y) \<in> set ?ops" by force
    with same have m': "(a, x, y) \<in> set ?ops'" by simp
    from ord ord' have o': "set order' \<subseteq> {0..<n}" by simp
    show ?thesis
      by (simp only: xcorr_seq_ops xcorr_ops_value [OF sh sep ord m] xcorr_ops_value [OF sh sep o' m'])
  next
    case False
    with same have "a \<notin> fst ` set ?ops'" by simp
    from fold_exec_op_frame [OF this, of s] fold_exec_op_frame [OF False, of s] show ?thesis
      by (simp only: xcorr_seq_ops)
  qed
qed

lemma row_block_disjoint: "i \<noteq> i' \<Longrightarrow> row_block c n i \<inter> row_block c n i' = {}"
proof -
  have "row_block c n i \<inter> row_block c n i' = {}" if "i < i'" for i i'
  proof -
    from that have "(i + 1) * n * ncols c \<le> i' * n * ncols c"
      by (intro mult_le_mono1) simp
    then show ?thesis by (auto simp: row_block_def)
  qed
  from this [of i i'] this [of i' i] show "i \<noteq> i' \<Longrightarrow> row_block c n i \<inter> row_block c n i' = {}"
    by (cases i i' rule: linorder_cases) auto
qed

lemma xcorr_loop_r_writes:
  assumes "ncols c = nx" "a \<notin> row_block c n i"
  shows "xcorr_loop_r X Xc c n nx i s a = s a"
proof -
  have "a \<notin> fst ` set (xcorr_ops_i X Xc c n nx i)"
  proof
    assume "a \<in> fst ` set (xcorr_ops_i X Xc c n nx i)"
    then obtain x y where "(a, x, y) \<in> set (xcorr_ops_i X Xc c n nx i)" by force
    then obtain r k where rk: "r < n" "k < nx" and a: "a = addr c (i * n + r) k"
      unfolding set_xcorr_ops_i by blast
    have "(i * n + r) * nx + k < Suc (i * n + r) * nx" using rk(2) by simp
    also have "\<dots> \<le> ((i + 1) * n) * nx" using rk(1) by (intro mult_le_mono1) simp
    finally have up: "(i * n + r) * nx + k < (i + 1) * n * nx" .
    have "i * n * nx \<le> (i * n + r) * nx + k" by (simp add: add_mult_distrib)
    with up assms(2) show False
      unfolding row_block_def a addr_def assms(1) by simp
  qed
  then show ?thesis unfolding xcorr_loop_r_ops by (rule fold_exec_op_frame)
qed

lemma spec_shapes: "xcorr_shapes spec_X spec_Xc spec_c 2 1"
  by (simp add: xcorr_shapes_def spec_X_def spec_Xc_def spec_c_def)

lemma spec_separate: "xcorr_separate spec_X spec_Xc spec_c 2"
  by (simp add: xcorr_separate_def footprint_def first_rows_def spec_X_def spec_Xc_def spec_c_def)

lemma view_rows_cong:
  assumes "\<And>i k. i < nrows v \<Longrightarrow> k < ncols v \<Longrightarrow> s' (addr v i k) = s (addr v i k)"
  shows "view_rows s' v = view_rows s v"
  using assms by (simp add: view_rows_def rd_def)

lemma view_rows_cell:
  assumes "take m (view_rows s1 v) = take m (view_rows s2 v)" "i < m" "i < nrows v" "k < ncols v"
  shows "s1 (addr v i k) = s2 (addr v i k)"
proof -
  from assms(1) have "take m (view_rows s1 v) ! i ! k = take m (view_rows s2 v) ! i ! k" by simp
  with assms(2-4) show ?thesis by (simp add: view_rows_def rd_def)
qed

lemma less_square: "i < n \<Longrightarrow> i < n * (n::nat)"
  by (cases n) simp_all

subsection \<open>Schedules of the parallel loop\<close>

lemma xcorr_step_op: "xcorr_step X Xc c n p = exec_op (step_op X Xc c n p)"
  by (cases p) (simp add: xcorr_step_def step_op_def exec_op_def rd_def)

lemma xcorr_prange_ops:
  "xcorr_prange X Xc c n sched s = fold exec_op (map (step_op X Xc c n) sched) s"
proof -
  have "xcorr_step X Xc c n = (\<lambda>p. exec_op (step_op X Xc c n p))"
    by (rule ext) (rule xcorr_step_op)
  then have "fold (xcorr_step X Xc c n) sched s = fold (\<lambda>p. exec_op (step_op X Xc c n p)) sched s"
    by (rule arg_cong [where f = "\<lambda>f. fold f sched s"])
  then show ?thesis by (simp add: xcorr_prange_def fold_map comp_def)
qed

lemma xcorr_ops_i_steps:
  "xcorr_ops_i X Xc c n nx i = map (step_op X Xc c n) (iteration_steps n nx i)"
  by (simp add: xcorr_ops_i_def iteration_steps_def map_concat comp_def step_op_def)

lemma xcorr_ops_steps:
  "xcorr_ops X Xc c n nx order = map (step_op X Xc c n) (concat (map (iteration_steps n nx) order))"
proof -
  have "xcorr_ops_i X Xc c n nx = (\<lambda>i. map (step_op X Xc c n) (iteration_steps n nx i))"
    by (rule ext) (rule xcorr_ops_i_steps)
  then show ?thesis by (simp add: xcorr_ops_def map_concat comp_def)
qed

lemma xcorr_seq_steps:
  "xcorr_seq X Xc c n nx order s = xcorr_prange X Xc c n (concat (map (iteration_steps n nx) order)) s"
  by (simp only: xcorr_seq_ops xcorr_prange_ops xcorr_ops_steps)

lemma set_iteration_steps:
  "set (iteration_steps n nx i) = {(i', r, k). i' = i \<and> r < n \<and> k < nx}"
  by (auto simp: iteration_steps_def)

lemma set_prange_schedule:
  assumes "prange_schedule n nx sched"
  shows "set sched = {(i, r, k). i < n \<and> r < n \<and> k < nx}"
proof (rule set_eqI)
  fix p :: step
  obtain i r k where p: "p = (i, r, k)" by (cases p)
  from assms have lt: "\<And>q. q \<in> set sched \<Longrightarrow> fst q < n"
    and fl: "\<And>i. i < n \<Longrightarrow> filter (\<lambda>(i', r, k). i' = i) sched = iteration_steps n nx i"
    by (auto simp: prange_schedule_def list_all_iff)
  show "p \<in> set sched \<longleftrightarrow> p \<in> {(i, r, k). i < n \<and> r < n \<and> k < nx}"
  proof
    assume m: "p \<in> set sched"
    with lt have i: "i < n" by (auto simp: p)
    from m have "p \<in> set (filter (\<lambda>(i', r, k). i' = i) sched)" by (simp add: p)
    then have "p \<in> set (iteration_steps n nx i)" by (simp only: fl [OF i])
    with i show "p \<in> {(i, r, k). i < n \<and> r < n \<and> k < nx}" by (simp add: p set_iteration_steps)
  next
    assume "p \<in> {(i, r, k). i < n \<and> r < n \<and> k < nx}"
    then have i: "i < n" and "p \<in> set (iteration_steps n nx i)" by (simp_all add: p set_iteration_steps)
    then have "p \<in> set (filter (\<lambda>(i', r, k). i' = i) sched)" by (simp only: fl [OF i])
    then show "p \<in> set sched" by simp
  qed
qed

lemma fold_exec_op_set_eq:
  assumes src: "\<forall>(d, x, y)\<in>set ops. x \<notin> fst ` set ops \<and> y \<notin> fst ` set ops"
      and fn: "\<forall>(d, x, y)\<in>set ops. \<forall>(d', x', y')\<in>set ops. d = d' \<longrightarrow> x = x' \<and> y = y'"
      and eq: "set ops' = set ops"
  shows "fold exec_op ops' s = fold exec_op ops s"
proof
  fix a
  have src': "\<forall>(d, x, y)\<in>set ops'. x \<notin> fst ` set ops' \<and> y \<notin> fst ` set ops'"
    using src by (simp only: eq)
  have fn': "\<forall>(d, x, y)\<in>set ops'. \<forall>(d', x', y')\<in>set ops'. d = d' \<longrightarrow> x = x' \<and> y = y'"
    using fn by (simp only: eq)
  show "fold exec_op ops' s a = fold exec_op ops s a"
  proof (cases "a \<in> fst ` set ops")
    case True
    then obtain x y where m: "(a, x, y) \<in> set ops" by force
    then have m': "(a, x, y) \<in> set ops'" by (simp only: eq)
    show ?thesis
      by (simp only: fold_exec_op_value [OF src fn m] fold_exec_op_value [OF src' fn' m'])
  next
    case False
    with eq have "a \<notin> fst ` set ops'" by simp
    from fold_exec_op_frame [OF this, of s] fold_exec_op_frame [OF False, of s]
    show ?thesis by (simp only:)
  qed
qed

lemma xcorr_ops_src:
  assumes sh: "xcorr_shapes X Xc c n nx" and sep: "xcorr_separate X Xc c n" and ord: "set order \<subseteq> {0..<n}"
  shows "\<forall>(d, x, y)\<in>set (xcorr_ops X Xc c n nx order).
           x \<notin> fst ` set (xcorr_ops X Xc c n nx order) \<and> y \<notin> fst ` set (xcorr_ops X Xc c n nx order)"
proof clarify
  let ?ops = "xcorr_ops X Xc c n nx order"
  fix d x y assume m: "(d, x, y) \<in> set ?ops"
  have dst: "fst ` set ?ops \<subseteq> footprint c"
    using xcorr_ops_places(1) [OF sh ord] by force
  from xcorr_ops_places(2,3) [OF sh ord m] sep dst
  show "x \<notin> fst ` set ?ops \<and> y \<notin> fst ` set ?ops"
    unfolding xcorr_separate_def by blast
qed

lemma xcorr_ops_fn:
  assumes "ncols c = nx"
  shows "\<forall>(d, x, y)\<in>set (xcorr_ops X Xc c n nx order).
           \<forall>(d', x', y')\<in>set (xcorr_ops X Xc c n nx order). d = d' \<longrightarrow> x = x' \<and> y = y'"
  using xcorr_ops_functional [OF assms] by blast

lemma set_sequential_steps:
  "set (concat (map (iteration_steps n nx) [0..<n])) = {(i, r, k). i < n \<and> r < n \<and> k < nx}"
  by (auto simp: set_iteration_steps)

lemma xcorr_prange_sequential:
  assumes sh: "xcorr_shapes X Xc c n nx" and sep: "xcorr_separate X Xc c n"
      and sched: "prange_schedule n nx sched"
  shows "xcorr_prange X Xc c n sched s = mult_mat_xcorr X Xc c n nx s"
proof -
  let ?ops = "xcorr_ops X Xc c n nx [0..<n]"
  have ord: "set [0..<n] \<subseteq> {0..<n}" by simp
  from sh have nc: "ncols c = nx" by (simp add: xcorr_shapes_def)
  have "set (map (step_op X Xc c n) sched) = step_op X Xc c n ` set sched" by simp
  also have "\<dots> = step_op X Xc c n ` set (concat (map (iteration_steps n nx) [0..<n]))"
    by (simp only: set_prange_schedule [OF sched] set_sequential_steps)
  also have "\<dots> = set ?ops" by (simp only: xcorr_ops_steps set_map)
  finally have "fold exec_op (map (step_op X Xc c n) sched) s = fold exec_op ?ops s"
    by (rule fold_exec_op_set_eq [OF xcorr_ops_src [OF sh sep ord] xcorr_ops_fn [OF nc]])
  then show ?thesis
    by (simp only: xcorr_prange_ops mult_mat_xcorr_def cdef_mult_mat_xcorr_def xcorr_seq_ops)
qed

lemma filter_iteration_steps:
  "filter (\<lambda>(i', r, k). i' = i) (iteration_steps n nx j) = (if j = i then iteration_steps n nx j else [])"
proof (cases "j = i")
  case True
  then have "\<forall>p\<in>set (iteration_steps n nx j). (\<lambda>(i', r, k). i' = i) p"
    by (auto simp: set_iteration_steps)
  then have "filter (\<lambda>(i', r, k). i' = i) (iteration_steps n nx j) = iteration_steps n nx j"
    by (rule filter_True)
  with True show ?thesis by simp
next
  case False
  then have "\<forall>p\<in>set (iteration_steps n nx j). \<not> (\<lambda>(i', r, k). i' = i) p"
    by (auto simp: set_iteration_steps)
  then have "filter (\<lambda>(i', r, k). i' = i) (iteration_steps n nx j) = []"
    by (rule filter_False)
  with False show ?thesis by simp
qed

lemma filter_iterations:
  "distinct order \<Longrightarrow>
   filter (\<lambda>(i', r, k). i' = i) (concat (map (iteration_steps n nx) order))
   = (if i \<in> set order then iteration_steps n nx i else [])"
  by (induction order) (auto simp: filter_iteration_steps)

lemma whole_iterations_schedule:
  assumes "distinct order" "set order = {0..<n}"
  shows "prange_schedule n nx (concat (map (iteration_steps n nx) order))"
  unfolding prange_schedule_def list_all_iff
  using assms by (auto simp: filter_iterations set_iteration_steps)

lemma xcorr_prange_frame:
  assumes sh: "xcorr_shapes X Xc c n nx" and sched: "prange_schedule n nx sched"
      and a: "a \<notin> footprint c"
  shows "xcorr_prange X Xc c n sched s a = s a"
proof -
  have "a \<notin> fst ` set (map (step_op X Xc c n) sched)"
  proof
    assume "a \<in> fst ` set (map (step_op X Xc c n) sched)"
    then obtain p where p: "p \<in> set sched" and ap: "a = fst (step_op X Xc c n p)" by auto
    obtain i r k where irk: "p = (i, r, k)" by (cases p)
    from p have "i < n" "r < n" "k < nx"
      by (simp_all add: set_prange_schedule [OF sched] irk)
    with sh have "addr c (i * n + r) k \<in> footprint c"
      by (intro addr_in_footprint) (simp_all add: xcorr_shapes_def block_row_less)
    with a ap show False by (simp add: irk step_op_def)
  qed
  then show ?thesis unfolding xcorr_prange_ops by (rule fold_exec_op_frame)
qed

lemma xcorr_prange_cells:
  assumes "xcorr_shapes X Xc c n nx" "xcorr_separate X Xc c n" "prange_schedule n nx sched"
      and "i < n" "r < n" "k < nx"
  shows "rd (xcorr_prange X Xc c n sched s) c (i * n + r) k = rd s X i k * rd s Xc r k"
  unfolding xcorr_prange_sequential [OF assms(1-3)] mult_mat_xcorr_def cdef_mult_mat_xcorr_def
  using assms by (intro xcorr_seq_cell) simp_all

text \<open>What the one-worker run reads.\<close>

lemma xcorr_seq_reads:
  assumes sh: "xcorr_shapes X Xc c n nx"
      and X: "view_rows s1 X = view_rows s2 X"
      and Xc: "take n (view_rows s1 Xc) = take n (view_rows s2 Xc)"
  shows "view_rows (mult_mat_xcorr X Xc c n nx s1) c = view_rows (mult_mat_xcorr X Xc c n nx s2) c"
proof (rule view_rows_cong)
  fix j k assume j: "j < nrows c" and k: "k < ncols c"
  from sh have shp: "nrows X = n" "ncols X = nx" "nrows Xc = n * n" "ncols Xc = nx"
    "nrows c = n * n" "ncols c = nx" by (simp_all add: xcorr_shapes_def)
  let ?ops = "xcorr_ops X Xc c n nx [0..<n]"
  let ?L = "{a. \<exists>i<n. \<exists>k<nx. a = addr X i k \<or> a = addr Xc i k}"
  have n: "0 < n" using j shp by (cases n) simp_all
  have X': "take (nrows X) (view_rows s1 X) = take (nrows X) (view_rows s2 X)"
    using X by simp
  have agree: "\<forall>a\<in>?L. s1 a = s2 a"
  proof
    fix a assume "a \<in> ?L"
    then obtain i k where ik: "i < n" "k < nx" and a: "a = addr X i k \<or> a = addr Xc i k" by blast
    have 1: "s1 (addr X i k) = s2 (addr X i k)"
      by (rule view_rows_cell [OF X']) (simp_all add: shp ik)
    have 2: "s1 (addr Xc i k) = s2 (addr Xc i k)"
      by (rule view_rows_cell [OF Xc]) (simp_all add: shp ik less_square)
    from a 1 2 show "s1 a = s2 a" by blast
  qed
  have src: "\<forall>(d, x, y)\<in>set ?ops. x \<in> ?L \<and> y \<in> ?L"
  proof clarify
    fix d x y assume "(d, x, y) \<in> set ?ops"
    then obtain i r k where "i < n" "r < n" "k < nx" "x = addr X i k" "y = addr Xc r k"
      unfolding set_xcorr_ops by auto
    then show "x \<in> ?L \<and> y \<in> ?L" by blast
  qed
  have jd: "j div n < n" using j shp(5) n by (simp add: less_mult_imp_div_less)
  have jm: "j mod n < n" using n by simp
  have jj: "j div n * n + j mod n = j" by simp
  have k': "k < nx" using k shp(6) by simp
  have "\<exists>i\<in>set [0..<n]. \<exists>r<n. \<exists>ka<nx.
          addr c (j div n * n + j mod n) k = addr c (i * n + r) ka
          \<and> addr X (j div n) k = addr X i ka \<and> addr Xc (j mod n) k = addr Xc r ka"
  proof (rule bexI [of _ "j div n"])
    show "j div n \<in> set [0..<n]" using jd by simp
    show "\<exists>r<n. \<exists>ka<nx.
          addr c (j div n * n + j mod n) k = addr c (j div n * n + r) ka
          \<and> addr X (j div n) k = addr X (j div n) ka \<and> addr Xc (j mod n) k = addr Xc r ka"
      using jm k' by blast
  qed
  then have "(addr c (j div n * n + j mod n) k, addr X (j div n) k, addr Xc (j mod n) k) \<in> set ?ops"
    by (simp only: set_xcorr_ops)
  then have "(addr c j k, addr X (j div n) k, addr Xc (j mod n) k) \<in> set ?ops"
    by (simp only: jj)
  then have "addr c j k \<in> fst ` set ?ops" by force
  then have "addr c j k \<in> ?L \<union> fst ` set ?ops" by blast
  with fold_exec_op_agree [OF agree src]
  have "fold exec_op ?ops s1 (addr c j k) = fold exec_op ?ops s2 (addr c j k)" by blast
  then show "mult_mat_xcorr X Xc c n nx s1 (addr c j k) = mult_mat_xcorr X Xc c n nx s2 (addr c j k)"
    by (simp only: mult_mat_xcorr_def cdef_mult_mat_xcorr_def xcorr_seq_ops)
qed

lemma example_schedules:
  "prange_schedule 2 1 ascending_sched" "prange_schedule 2 1 descending_sched"
  "prange_schedule 2 1 interleaved_sched"
  by code_simp+

section \<open>Block cross-correlation: claims\<close>

text \<open>
  C1, as amended. For \<open>X\<close> of shape \<open>(n, nx)\<close>, \<open>Xc\<close> and \<open>c\<close> of shape \<open>(n * n, nx)\<close>, and
  \<open>c\<close> sharing no element with \<open>X\<close> or with the first \<open>n\<close> rows of \<open>Xc\<close>: after the call,
  for every block \<open>i < n\<close>, every \<open>r < n\<close> and every column \<open>k < nx\<close>,
  \<open>c[i * n + r][k] = X[i][k] * Xc[r][k]\<close>. The row of \<open>Xc\<close> is \<open>r\<close>, the position within
  the block, not the flattened row \<open>j = i * n + r\<close>. On the example of the spec the result is
  \<open>[[2], [4], [3], [6]]\<close>, not \<open>[[2], [4], [9], [12]]\<close>. The theorem is about the one-worker
  run; \<open>xcorr_prange_cells\<close> gives the same cells under every schedule.
\<close>

theorem mult_mat_xcorr_cells:
  assumes "xcorr_shapes X Xc c n nx" "xcorr_separate X Xc c n" "i < n" "r < n" "k < nx"
  shows "rd (mult_mat_xcorr X Xc c n nx s) c (i * n + r) k = rd s X i k * rd s Xc r k"
  unfolding mult_mat_xcorr_def cdef_mult_mat_xcorr_def
  using assms by (intro xcorr_seq_cell) simp_all

theorem mult_mat_xcorr_cells_witness:
  "xcorr_shapes spec_X spec_Xc spec_c 2 1 \<and> xcorr_separate spec_X spec_Xc spec_c 2
   \<and> rd (mult_mat_xcorr spec_X spec_Xc spec_c 2 1 spec_store) spec_c (1 * 2 + 0) 0
       = rd spec_store spec_X 1 0 * rd spec_store spec_Xc 0 0
   \<and> rd spec_store spec_X 1 0 * rd spec_store spec_Xc 0 0 = 3"
proof -
  have "rd spec_store spec_X 1 0 * rd spec_store spec_Xc 0 0 = 3" by code_simp
  with mult_mat_xcorr_cells [OF spec_shapes spec_separate, of 1 0 0 spec_store]
       spec_shapes spec_separate
  show ?thesis by simp
qed

theorem mult_mat_xcorr_cells_counterexample:
  "view_rows spec_store spec_X = [[2], [3]]
   \<and> view_rows spec_store spec_Xc = [[1], [2], [3], [4]]
   \<and> view_rows (mult_mat_xcorr spec_X spec_Xc spec_c 2 1 spec_store) spec_c = [[2], [4], [3], [6]]
   \<and> rd (mult_mat_xcorr spec_X spec_Xc spec_c 2 1 spec_store) spec_c 2 0
       \<noteq> rd spec_store spec_X 1 0 * rd spec_store spec_Xc 2 0
   \<and> rd (mult_mat_xcorr spec_X spec_Xc spec_Xc 2 1 spec_store) spec_Xc 2 0
       \<noteq> rd spec_store spec_X 1 0 * rd spec_store spec_Xc 0 0"
  by code_simp

text \<open>
  C3, as amended. With the shapes of the spec and \<open>c\<close> sharing no element with \<open>X\<close> or with
  the first \<open>n\<close> rows of \<open>Xc\<close>, every schedule of the parallel loop leaves memory exactly
  as the sequential run \<open>i = 0, 1, ..., n - 1\<close> does: any order of the outer iterations, any
  interleaving of their statements, hence any number of workers. Each outer iteration \<open>i\<close>
  writes only within rows \<open>[i * n, (i + 1) * n)\<close> of \<open>c\<close>, and these row blocks are pairwise
  disjoint. When \<open>c\<close> overlaps what is read the schedule shows: the last theorem passes one
  array as both \<open>Xc\<close> and \<open>c\<close>.
\<close>

theorem xcorr_schedule_independent:
  assumes "xcorr_shapes X Xc c n nx" "xcorr_separate X Xc c n" "prange_schedule n nx sched"
  shows "xcorr_prange X Xc c n sched s = mult_mat_xcorr X Xc c n nx s
         \<and> (\<forall>i t a. a \<notin> row_block c n i \<longrightarrow> xcorr_loop_r X Xc c n nx i t a = (t :: 'a::times store) a)
         \<and> (\<forall>i i'. i \<noteq> i' \<longrightarrow> row_block c n i \<inter> row_block c n i' = {})"
proof (intro conjI allI impI)
  show "xcorr_prange X Xc c n sched s = mult_mat_xcorr X Xc c n nx s"
    using assms by (rule xcorr_prange_sequential)
next
  fix i t a assume "a \<notin> row_block c n i"
  moreover from assms(1) have "ncols c = nx" by (simp add: xcorr_shapes_def)
  ultimately show "xcorr_loop_r X Xc c n nx i t a = t a" by (intro xcorr_loop_r_writes)
next
  fix i i' :: nat assume "i \<noteq> i'"
  then show "row_block c n i \<inter> row_block c n i' = {}" by (rule row_block_disjoint)
qed

theorem xcorr_schedule_independent_witness:
  "xcorr_shapes spec_X spec_Xc spec_c 2 1 \<and> xcorr_separate spec_X spec_Xc spec_c 2
   \<and> prange_schedule 2 1 interleaved_sched
   \<and> xcorr_prange spec_X spec_Xc spec_c 2 interleaved_sched spec_store
       = mult_mat_xcorr spec_X spec_Xc spec_c 2 1 spec_store
   \<and> view_rows (xcorr_prange spec_X spec_Xc spec_c 2 interleaved_sched spec_store) spec_c
       = [[2], [4], [3], [6]]"
proof -
  have v: "view_rows (xcorr_prange spec_X spec_Xc spec_c 2 interleaved_sched spec_store) spec_c
           = [[2], [4], [3], [6]]"
    by code_simp
  have m: "xcorr_prange spec_X spec_Xc spec_c 2 interleaved_sched spec_store
           = mult_mat_xcorr spec_X spec_Xc spec_c 2 1 spec_store"
    using xcorr_schedule_independent [OF spec_shapes spec_separate example_schedules(3), of spec_store]
    by (rule conjunct1)
  show ?thesis by (intro conjI spec_shapes spec_separate example_schedules(3) m v)
qed

theorem xcorr_schedule_independent_counterexample:
  "prange_schedule 2 1 interleaved_sched
   \<and> view_rows (xcorr_prange spec_X spec_Xc spec_Xc 2 interleaved_sched spec_store) spec_Xc
       = [[2], [4], [3], [12]]
   \<and> view_rows (mult_mat_xcorr spec_X spec_Xc spec_Xc 2 1 spec_store) spec_Xc
       = [[2], [4], [6], [12]]"
  by code_simp

text \<open>
  C8, as amended. With the shapes of the spec the call writes only to elements of \<open>c\<close>:
  every address outside \<open>c\<close> holds after the call what it held before. So \<open>X\<close> is unchanged
  when it shares no element with \<open>c\<close>, and so is \<open>Xc\<close>. An array passed both as an input
  and as \<open>c\<close> is changed, as the last theorem shows. The theorem is about the one-worker
  run; \<open>xcorr_prange_frame\<close> gives the same frame under every schedule.
\<close>

theorem mult_mat_xcorr_frame:
  assumes "xcorr_shapes X Xc c n nx"
  shows "(\<forall>a. a \<notin> footprint c \<longrightarrow> mult_mat_xcorr X Xc c n nx s a = s a)
         \<and> (footprint c \<inter> footprint X = {} \<longrightarrow>
              view_rows (mult_mat_xcorr X Xc c n nx s) X = view_rows s X)
         \<and> (footprint c \<inter> footprint Xc = {} \<longrightarrow>
              view_rows (mult_mat_xcorr X Xc c n nx s) Xc = view_rows s Xc)"
proof -
  have frame: "mult_mat_xcorr X Xc c n nx s a = s a" if "a \<notin> footprint c" for a
    unfolding mult_mat_xcorr_def cdef_mult_mat_xcorr_def
    using assms that by (intro xcorr_seq_frame) simp_all
  have "view_rows (mult_mat_xcorr X Xc c n nx s) v = view_rows s v" if "footprint c \<inter> footprint v = {}" for v
  proof (rule view_rows_cong)
    fix i k assume "i < nrows v" "k < ncols v"
    then have "addr v i k \<in> footprint v" by (rule addr_in_footprint)
    with that have "addr v i k \<notin> footprint c" by blast
    then show "mult_mat_xcorr X Xc c n nx s (addr v i k) = s (addr v i k)" by (rule frame)
  qed
  with frame show ?thesis by blast
qed

theorem mult_mat_xcorr_frame_witness:
  "xcorr_shapes spec_X spec_Xc spec_c 2 1
   \<and> 3 \<notin> footprint spec_c \<and> footprint spec_c \<inter> footprint spec_X = {} \<and> footprint spec_c \<inter> footprint spec_Xc = {}
   \<and> mult_mat_xcorr spec_X spec_Xc spec_c 2 1 spec_store 3 = spec_store 3
   \<and> view_rows (mult_mat_xcorr spec_X spec_Xc spec_c 2 1 spec_store) spec_X = [[2], [3]]
   \<and> view_rows (mult_mat_xcorr spec_X spec_Xc spec_c 2 1 spec_store) spec_Xc = [[1], [2], [3], [4]]"
proof -
  have fp: "3 \<notin> footprint spec_c" "footprint spec_c \<inter> footprint spec_X = {}"
    "footprint spec_c \<inter> footprint spec_Xc = {}"
    by (simp_all add: footprint_def spec_X_def spec_Xc_def spec_c_def)
  have v: "view_rows spec_store spec_X = [[2], [3]]" "view_rows spec_store spec_Xc = [[1], [2], [3], [4]]"
    by code_simp+
  from mult_mat_xcorr_frame [OF spec_shapes, of spec_store] fp v
  have "mult_mat_xcorr spec_X spec_Xc spec_c 2 1 spec_store 3 = spec_store 3"
    "view_rows (mult_mat_xcorr spec_X spec_Xc spec_c 2 1 spec_store) spec_X = [[2], [3]]"
    "view_rows (mult_mat_xcorr spec_X spec_Xc spec_c 2 1 spec_store) spec_Xc = [[1], [2], [3], [4]]"
    by simp_all
  then show ?thesis by (intro conjI spec_shapes fp)
qed

theorem mult_mat_xcorr_frame_counterexample:
  "view_rows spec_store spec_Xc = [[1], [2], [3], [4]]
   \<and> view_rows (mult_mat_xcorr spec_X spec_Xc spec_Xc 2 1 spec_store) spec_Xc = [[2], [4], [6], [12]]
   \<and> view_rows spec_store one_cell = [[2]]
   \<and> view_rows (mult_mat_xcorr one_cell one_cell one_cell 1 1 spec_store) one_cell = [[4]]"
  by code_simp

text \<open>
  C9, as amended. With the shapes of the spec and \<open>c\<close> sharing no element with \<open>X\<close> or with
  the first \<open>n\<close> rows of \<open>Xc\<close>: two calls with the same \<open>n\<close>, \<open>nx\<close> and arrays, started from
  two memories in which \<open>X\<close> is the same and \<open>Xc\<close> agrees on its rows \<open>0 .. n - 1\<close>, leave
  the same content in \<open>c\<close>, whatever the schedule of either call. Rows \<open>n .. n * n - 1\<close> of
  \<open>Xc\<close>, and what \<open>c\<close> held before, do not matter. When \<open>c\<close> overlaps what is read, two
  calls on the same memory can leave different results, as the last theorem shows.
\<close>

theorem xcorr_reads_first_rows:
  assumes sh: "xcorr_shapes X Xc c n nx" and sep: "xcorr_separate X Xc c n"
      and sched1: "prange_schedule n nx sched1" and sched2: "prange_schedule n nx sched2"
      and X: "view_rows s1 X = view_rows s2 X"
      and Xc: "take n (view_rows s1 Xc) = take n (view_rows s2 Xc)"
  shows "view_rows (xcorr_prange X Xc c n sched1 s1) c = view_rows (xcorr_prange X Xc c n sched2 s2) c"
  by (simp only: xcorr_prange_sequential [OF sh sep sched1] xcorr_prange_sequential [OF sh sep sched2]
                 xcorr_seq_reads [OF sh X Xc])

theorem xcorr_reads_first_rows_witness:
  "xcorr_shapes spec_X spec_Xc spec_c 2 1 \<and> xcorr_separate spec_X spec_Xc spec_c 2
   \<and> prange_schedule 2 1 ascending_sched \<and> prange_schedule 2 1 interleaved_sched
   \<and> view_rows spec_store spec_X = view_rows other_store spec_X
   \<and> take 2 (view_rows spec_store spec_Xc) = take 2 (view_rows other_store spec_Xc)
   \<and> view_rows spec_store spec_Xc \<noteq> view_rows other_store spec_Xc
   \<and> view_rows (xcorr_prange spec_X spec_Xc spec_c 2 ascending_sched spec_store) spec_c
       = view_rows (xcorr_prange spec_X spec_Xc spec_c 2 interleaved_sched other_store) spec_c"
proof -
  have h1: "view_rows spec_store spec_X = view_rows other_store spec_X" by code_simp
  have h2: "take 2 (view_rows spec_store spec_Xc) = take 2 (view_rows other_store spec_Xc)" by code_simp
  have h3: "view_rows spec_store spec_Xc \<noteq> view_rows other_store spec_Xc" by code_simp
  show ?thesis
    by (intro conjI spec_shapes spec_separate example_schedules(1,3) h1 h2 h3
          xcorr_reads_first_rows [OF spec_shapes spec_separate example_schedules(1,3) h1 h2])
qed

theorem xcorr_reads_first_rows_counterexample:
  "prange_schedule 2 1 ascending_sched \<and> prange_schedule 2 1 descending_sched
   \<and> view_rows (xcorr_prange spec_X spec_Xc spec_Xc 2 ascending_sched spec_store) spec_Xc
       = [[2], [4], [6], [12]]
   \<and> view_rows (xcorr_prange spec_X spec_Xc spec_Xc 2 descending_sched spec_store) spec_Xc
       = [[2], [4], [3], [6]]"
  by code_simp

end
